theory Spec2Isabelle
  imports Complex_Main
begin

section \<open>The flow-equation integrator of the tutorial notebook\<close>

text \<open>
  The development embeds the function \<open>flow\<close> of \<^verbatim>\<open>tutorial/build_unitary.ipynb\<close>:
  \<^verbatim>\<open>
  def flow(H,dl=10**(-3),steps = 100000):
      H2 = copy.deepcopy(H)
      n,_ = H2.shape
      U = np.identity(n)
      for q in range(steps):
          H0 = np.diag(np.diag(H2))
          V = H2-H0
          Vmax = np.max(np.abs(V.reshape(n**2)))
          eta = H0@V - V@H0
          U = (np.identity(n) + dl*eta)@U
          dH = eta@H2-H2@eta
          H2 += dl*dH
      return H2,Vmax,U
  \<close>
  The arrays are float64 arrays, as the notebook builds them; arrays of another dtype
  are outside the model. Their entries are modelled in exact arithmetic, as real
  numbers: the rounding of float64, infinities and NaN are outside the model.
\<close>

subsection \<open>Two-dimensional arrays\<close>

text \<open>
  A two-dimensional array is the list of its rows. Every row of an array has the same
  length (\<open>is_ndarray\<close>). An array without rows is \<open>[]\<close>, whatever its second
  dimension.
\<close>

type_synonym ndarray = "real list list"

definition nrows :: "ndarray \<Rightarrow> nat" where
  "nrows A = length A"

definition ncols :: "ndarray \<Rightarrow> nat" where
  "ncols A = (case A of [] \<Rightarrow> 0 | r # _ \<Rightarrow> length r)"

definition shape :: "ndarray \<Rightarrow> nat \<times> nat" where
  "shape A = (nrows A, ncols A)"

definition is_ndarray :: "ndarray \<Rightarrow> bool" where
  "is_ndarray A = list_all (\<lambda>r. length r = ncols A) A"

definition is_square :: "nat \<Rightarrow> ndarray \<Rightarrow> bool" where
  "is_square n A = (length A = n \<and> list_all (\<lambda>r. length r = n) A)"

text \<open>The array of shape \<open>(r, c)\<close> whose entry at \<open>[i, j]\<close> is \<open>f i j\<close>.\<close>

definition mat :: "nat \<Rightarrow> nat \<Rightarrow> (nat \<Rightarrow> nat \<Rightarrow> real) \<Rightarrow> ndarray" where
  "mat r c f = map (\<lambda>i. map (\<lambda>j. f i j) [0..<c]) [0..<r]"

text \<open>\<^verbatim>\<open>np.identity(n)\<close>\<close>

definition np_identity :: "nat \<Rightarrow> ndarray" where
  "np_identity n = mat n n (\<lambda>i j. if i = j then 1 else 0)"

text \<open>
  \<^verbatim>\<open>np.diag\<close> of a two-dimensional array is the vector of its main diagonal, of length
  the smaller dimension; \<^verbatim>\<open>np.diag\<close> of a vector is the square array with the vector on
  the diagonal and zero elsewhere.
\<close>

definition np_diag_vector :: "ndarray \<Rightarrow> real list" where
  "np_diag_vector A = map (\<lambda>i. A ! i ! i) [0..<min (nrows A) (ncols A)]"

definition np_diag_matrix :: "real list \<Rightarrow> ndarray" where
  "np_diag_matrix v = mat (length v) (length v) (\<lambda>i j. if i = j then v ! i else 0)"

text \<open>
  Elementwise operations and the matrix product \<^verbatim>\<open>@\<close>. They are used on operands
  of one square shape only (the loop body checks the shapes first), so they carry no
  error of their own.
\<close>

definition np_sub :: "ndarray \<Rightarrow> ndarray \<Rightarrow> ndarray" where
  "np_sub A B = mat (nrows A) (ncols A) (\<lambda>i j. A ! i ! j - B ! i ! j)"

definition np_add :: "ndarray \<Rightarrow> ndarray \<Rightarrow> ndarray" where
  "np_add A B = mat (nrows A) (ncols A) (\<lambda>i j. A ! i ! j + B ! i ! j)"

definition np_scale :: "real \<Rightarrow> ndarray \<Rightarrow> ndarray" where
  "np_scale c A = mat (nrows A) (ncols A) (\<lambda>i j. c * A ! i ! j)"

definition matmul :: "ndarray \<Rightarrow> ndarray \<Rightarrow> ndarray" where
  "matmul A B =
     mat (nrows A) (ncols B) (\<lambda>i j. sum_list (map (\<lambda>k. A ! i ! k * B ! k ! j) [0..<ncols A]))"

text \<open>\<^verbatim>\<open>A.T\<close> and \<^verbatim>\<open>-A\<close>, used to state symmetry and anti-symmetry.\<close>

definition np_transpose :: "ndarray \<Rightarrow> ndarray" where
  "np_transpose A = mat (ncols A) (nrows A) (\<lambda>i j. A ! j ! i)"

definition np_neg :: "ndarray \<Rightarrow> ndarray" where
  "np_neg A = mat (nrows A) (ncols A) (\<lambda>i j. - (A ! i ! j))"

definition is_symmetric :: "ndarray \<Rightarrow> bool" where
  "is_symmetric A = (np_transpose A = A)"

definition is_antisymmetric :: "ndarray \<Rightarrow> bool" where
  "is_antisymmetric A = (np_transpose A = np_neg A)"

text \<open>\<^verbatim>\<open>A.reshape(m)\<close> flattens in row order; \<^verbatim>\<open>np.max\<close> of a non-empty vector.\<close>

definition np_ravel :: "ndarray \<Rightarrow> real list" where
  "np_ravel A = concat A"

definition np_max :: "real list \<Rightarrow> real" where
  "np_max xs = fold max (tl xs) (hd xs)"

text \<open>The sum of the diagonal entries.\<close>

definition trace :: "ndarray \<Rightarrow> real" where
  "trace A = sum_list (np_diag_vector A)"

subsection \<open>The loop body\<close>

datatype py_error = UnboundLocalError | ValueError

text \<open>
  The generator \<^verbatim>\<open>eta = H0@V - V@H0\<close> of the source, from the current \<open>H2\<close>.
\<close>

definition generator :: "ndarray \<Rightarrow> ndarray" where
  "generator H2 =
     (let H0 = np_diag_matrix (np_diag_vector H2);
          V = np_sub H2 H0
      in np_sub (matmul H0 V) (matmul V H0))"

text \<open>
  One pass through the loop body, on the values of the loop variables \<open>H2\<close>,
  \<open>Vmax\<close> (unbound before the first pass: \<open>None\<close>) and \<open>U\<close>.

  \<open>H0\<close> is square, of the smaller dimension of \<open>H2\<close>. When \<open>H2\<close> is not square,
  \<^verbatim>\<open>H2-H0\<close> raises ValueError (the shapes do not broadcast), except where one operand has
  a dimension 1 and broadcasts; then either the result has not \<open>n\<^sup>2\<close> entries and
  \<^verbatim>\<open>V.reshape(n**2)\<close> raises ValueError, or it is empty. \<^verbatim>\<open>np.max\<close> of an empty
  array raises ValueError.
\<close>

definition flow_body ::
  "nat \<Rightarrow> real \<Rightarrow> ndarray \<times> real option \<times> ndarray
     \<Rightarrow> py_error + ndarray \<times> real option \<times> ndarray" where
  "flow_body n dl s =
     (case s of (H2, Vmax, U) \<Rightarrow>
        let H0 = np_diag_matrix (np_diag_vector H2) in
        if shape H0 \<noteq> shape H2 then Inl ValueError
        else
          let V = np_sub H2 H0 in
          if length (np_ravel V) \<noteq> n ^ 2 then Inl ValueError
          else if np_ravel V = [] then Inl ValueError
          else
            let Vmax' = np_max (map abs (np_ravel V));
                eta = np_sub (matmul H0 V) (matmul V H0);
                U' = matmul (np_add (np_identity n) (np_scale dl eta)) U;
                dH = np_sub (matmul eta H2) (matmul H2 eta)
            in Inr (np_add H2 (np_scale dl dH), Some Vmax', U'))"

subsection \<open>The store, the loop and \<open>flow\<close>\<close>

text \<open>
  Arrays are mutable objects. The store is the list of the arrays allocated so far, an
  address is an index into it, and a new array is appended. \<open>H2\<close> is updated in place
  (\<^verbatim>\<open>H2 += dl*dH\<close>), so it lives in the store, at the address \<open>a2\<close>. \<open>U\<close> and the
  temporaries are bound to new arrays at every assignment and never updated in place:
  they are values.
\<close>

type_synonym addr = nat
type_synonym heap = "ndarray list"

text \<open>
  \<^verbatim>\<open>for q in range(steps)\<close>, as recursion on the number of passes that remain. An
  exception leaves the loop with the store as it is.
\<close>

fun flow_loop ::
  "nat \<Rightarrow> real \<Rightarrow> addr \<Rightarrow> nat \<Rightarrow> heap \<times> real option \<times> ndarray
     \<Rightarrow> heap \<times> (py_error + real option \<times> ndarray)" where
  "flow_loop n dl a2 0 (h, Vmax, U) = (h, Inr (Vmax, U))"
| "flow_loop n dl a2 (Suc k) (h, Vmax, U) =
     (case flow_body n dl (h ! a2, Vmax, U) of
        Inl e \<Rightarrow> (h, Inl e)
      | Inr (H2', Vmax', U') \<Rightarrow> flow_loop n dl a2 k (h[a2 := H2'], Vmax', U'))"

text \<open>
  \<open>flow h a dl steps\<close>: the call \<^verbatim>\<open>flow(H, dl, steps)\<close> in the store \<open>h\<close>, where
  \<open>a < length h\<close> is the address of the caller's \<open>H\<close>. It gives the store after the call and
  either the exception raised or the returned triple: the address of \<open>H2\<close>, \<open>Vmax\<close>
  and \<open>U\<close>. \<^verbatim>\<open>range(steps)\<close> is empty for \<open>steps \<le> 0\<close>. \<open>Vmax\<close> is assigned in
  the loop body only, so \<^verbatim>\<open>return H2,Vmax,U\<close> raises UnboundLocalError when the body
  never ran.
\<close>

definition flow ::
  "heap \<Rightarrow> addr \<Rightarrow> real \<Rightarrow> int \<Rightarrow> heap \<times> (py_error + addr \<times> real \<times> ndarray)" where
  "flow h a dl steps =
     (let a2 = length h;
          h1 = h @ [h ! a];
          n = fst (shape (h1 ! a2));
          U = np_identity n
      in case flow_loop n dl a2 (nat steps) (h1, None, U) of
           (h', Inl e) \<Rightarrow> (h', Inl e)
         | (h', Inr (None, U')) \<Rightarrow> (h', Inl UnboundLocalError)
         | (h', Inr (Some Vmax, U')) \<Rightarrow> (h', Inr (a2, Vmax, U')))"

subsection \<open>The forward-Euler step of the specification\<close>

text \<open>
  The step as the specification words it, on \<open>n \<times> n\<close> matrices and with the sums of
  the matrix products written out: the diagonal part \<open>H0\<close>, the remainder
  \<open>V = H - H0\<close>, the generator \<open>\<eta> = H0\<cdot>V - V\<cdot>H0\<close>, and the update of the pair
  \<open>(H, U)\<close> to \<open>(H + dl\<cdot>(\<eta>H - H\<eta>), (I + dl\<cdot>\<eta>)\<cdot>U)\<close>.
\<close>

definition diagonal_part :: "nat \<Rightarrow> ndarray \<Rightarrow> ndarray" where
  "diagonal_part n H = mat n n (\<lambda>i j. if i = j then H ! i ! j else 0)"

definition matrix_diff :: "nat \<Rightarrow> ndarray \<Rightarrow> ndarray \<Rightarrow> ndarray" where
  "matrix_diff n A B = mat n n (\<lambda>i j. A ! i ! j - B ! i ! j)"

definition matrix_sum :: "nat \<Rightarrow> ndarray \<Rightarrow> ndarray \<Rightarrow> ndarray" where
  "matrix_sum n A B = mat n n (\<lambda>i j. A ! i ! j + B ! i ! j)"

definition scalar_mult :: "nat \<Rightarrow> real \<Rightarrow> ndarray \<Rightarrow> ndarray" where
  "scalar_mult n c A = mat n n (\<lambda>i j. c * A ! i ! j)"

definition matrix_product :: "nat \<Rightarrow> ndarray \<Rightarrow> ndarray \<Rightarrow> ndarray" where
  "matrix_product n A B = mat n n (\<lambda>i j. \<Sum>k<n. A ! i ! k * B ! k ! j)"

definition identity_matrix :: "nat \<Rightarrow> ndarray" where
  "identity_matrix n = mat n n (\<lambda>i j. if i = j then 1 else 0)"

definition spec_generator :: "nat \<Rightarrow> ndarray \<Rightarrow> ndarray" where
  "spec_generator n H =
     (let H0 = diagonal_part n H;
          V = matrix_diff n H H0
      in matrix_diff n (matrix_product n H0 V) (matrix_product n V H0))"

definition euler_step :: "nat \<Rightarrow> real \<Rightarrow> ndarray \<times> ndarray \<Rightarrow> ndarray \<times> ndarray" where
  "euler_step n dl s =
     (case s of (H, U) \<Rightarrow>
        let \<eta> = spec_generator n H
        in (matrix_sum n H
              (scalar_mult n dl (matrix_diff n (matrix_product n \<eta> H) (matrix_product n H \<eta>))),
            matrix_product n (matrix_sum n (identity_matrix n) (scalar_mult n dl \<eta>)) U))"

text \<open>
  The state \<open>(H, U)\<close> after \<open>k\<close> steps from the Hamiltonian \<open>H\<close> and the identity.
\<close>

definition flowed :: "nat \<Rightarrow> real \<Rightarrow> nat \<Rightarrow> ndarray \<Rightarrow> ndarray \<times> ndarray" where
  "flowed n dl k H = (euler_step n dl ^^ k) (H, identity_matrix n)"

text \<open>
  The off-diagonality measure of the source, \<^verbatim>\<open>np.max(np.abs(V.reshape(n**2)))\<close> with
  \<open>V\<close> the array minus its diagonal part, and the largest absolute value of an
  off-diagonal entry of an \<open>n \<times> n\<close> matrix (for \<open>n \<ge> 2\<close>).
\<close>

definition off_diag_measure :: "ndarray \<Rightarrow> real" where
  "off_diag_measure H2 =
     np_max (map abs (np_ravel (np_sub H2 (np_diag_matrix (np_diag_vector H2)))))"

definition max_abs_off_diagonal :: "nat \<Rightarrow> ndarray \<Rightarrow> real" where
  "max_abs_off_diagonal n H =
     Max (set (concat (map (\<lambda>i. map (\<lambda>j. \<bar>H ! i ! j\<bar>) (filter (\<lambda>j. j \<noteq> i) [0..<n])) [0..<n])))"

text \<open>An entry of the generator, in closed form.\<close>

definition eta_entry :: "ndarray \<Rightarrow> nat \<Rightarrow> nat \<Rightarrow> real" where
  "eta_entry H i j = (H ! i ! i - H ! j ! j) * H ! i ! j"

text \<open>
  The array \<open>H2\<close> in the store after \<open>k\<close> passes of the loop of the call
  \<^verbatim>\<open>flow(H, dl, ...)\<close>, from the initial state that \<open>flow\<close> sets up.
\<close>

definition H2_after :: "heap \<Rightarrow> addr \<Rightarrow> real \<Rightarrow> nat \<Rightarrow> ndarray" where
  "H2_after h a dl k =
     (let n = fst (shape (h ! a))
      in fst (flow_loop n dl (length h) k (h @ [h ! a], None, np_identity n)) ! length h)"

text \<open>
  A diagonal Hamiltonian equals its diagonal part \<^verbatim>\<open>np.diag(np.diag(H))\<close>, so that its
  off-diagonal part is zero. \<^verbatim>\<open>np.zeros((n,n))\<close> is the zero array.
\<close>

definition is_diagonal :: "ndarray \<Rightarrow> bool" where
  "is_diagonal H = (np_diag_matrix (np_diag_vector H) = H)"

definition np_zeros :: "nat \<Rightarrow> ndarray" where
  "np_zeros n = mat n n (\<lambda>i j. 0)"

section \<open>Auxiliary facts\<close>

subsection \<open>Arrays built from their entries\<close>

lemma length_mat: "length (mat r c f) = r"
  by (simp add: mat_def)

lemma mat_nth: "i < r \<Longrightarrow> j < c \<Longrightarrow> mat r c f ! i ! j = f i j"
  by (simp add: mat_def)

lemma mat_row_length: "i < r \<Longrightarrow> length (mat r c f ! i) = c"
  by (simp add: mat_def)

lemma is_square_mat: "is_square n (mat n n f)"
  by (simp add: is_square_def mat_def list_all_iff)

lemma nrows_mat: "nrows (mat r c f) = r"
  by (simp add: nrows_def mat_def)

lemma ncols_mat: "0 < r \<Longrightarrow> ncols (mat r c f) = c"
  by (cases r) (simp_all add: ncols_def mat_def upt_conv_Cons del: upt_Suc)

lemma ncols_mat_square: "ncols (mat n n f) = n"
  by (cases n) (simp_all add: ncols_def mat_def upt_conv_Cons del: upt_Suc)

lemma mat_eq_iff: "mat r c f = mat r c g \<longleftrightarrow> (\<forall>i<r. \<forall>j<c. f i j = g i j)"
  by (auto simp: mat_def list_eq_iff_nth_eq)

lemma mat_cong: "(\<And>i j. i < r \<Longrightarrow> j < c \<Longrightarrow> f i j = g i j) \<Longrightarrow> mat r c f = mat r c g"
  by (simp add: mat_eq_iff)

lemma is_square_nrows: "is_square n A \<Longrightarrow> nrows A = n"
  by (simp add: is_square_def nrows_def)

lemma is_square_ncols: "is_square n A \<Longrightarrow> ncols A = n"
  by (cases A) (auto simp: is_square_def ncols_def)

lemma is_square_row: "is_square n A \<Longrightarrow> i < n \<Longrightarrow> length (A ! i) = n"
  by (simp add: is_square_def list_all_length)

lemma is_square_eq_mat: "is_square n A \<Longrightarrow> mat n n (\<lambda>i j. A ! i ! j) = A"
  by (auto simp: mat_def list_eq_iff_nth_eq is_square_def list_all_length)

lemma is_square_eqI:
  "is_square n A \<Longrightarrow> is_square n B \<Longrightarrow> (\<And>i j. i < n \<Longrightarrow> j < n \<Longrightarrow> A ! i ! j = B ! i ! j) \<Longrightarrow> A = B"
  by (auto simp: list_eq_iff_nth_eq is_square_def list_all_length)

lemma sum_list_map_upt0: "sum_list (map f [0..<n]) = (\<Sum>k<n. f k)"
  by (simp add: interv_sum_list_conv_sum_set_nat atLeast0LessThan)

lemma is_ndarray_square: "is_ndarray A \<Longrightarrow> nrows A = ncols A \<Longrightarrow> is_square (nrows A) A"
  by (simp add: is_ndarray_def is_square_def nrows_def)

lemma is_square_ndarray: "is_square n A \<Longrightarrow> is_ndarray A"
  using is_square_ncols[of n A] by (simp add: is_ndarray_def is_square_def)

subsection \<open>The operations on square arrays\<close>

lemma np_diag_vector_square:
  "is_square n A \<Longrightarrow> np_diag_vector A = map (\<lambda>i. A ! i ! i) [0..<n]"
  by (simp add: np_diag_vector_def is_square_nrows is_square_ncols)

lemma diag_part_square:
  "is_square n A \<Longrightarrow>
   np_diag_matrix (np_diag_vector A) = mat n n (\<lambda>i j. if i = j then A ! i ! i else 0)"
  by (simp add: np_diag_vector_square np_diag_matrix_def mat_eq_iff)

lemma np_sub_square:
  "is_square n A \<Longrightarrow> np_sub A B = mat n n (\<lambda>i j. A ! i ! j - B ! i ! j)"
  by (simp add: np_sub_def is_square_nrows is_square_ncols)

lemma np_add_square:
  "is_square n A \<Longrightarrow> np_add A B = mat n n (\<lambda>i j. A ! i ! j + B ! i ! j)"
  by (simp add: np_add_def is_square_nrows is_square_ncols)

lemma np_scale_square:
  "is_square n A \<Longrightarrow> np_scale c A = mat n n (\<lambda>i j. c * A ! i ! j)"
  by (simp add: np_scale_def is_square_nrows is_square_ncols)

lemma np_neg_square:
  "is_square n A \<Longrightarrow> np_neg A = mat n n (\<lambda>i j. - (A ! i ! j))"
  by (simp add: np_neg_def is_square_nrows is_square_ncols)

lemma np_transpose_square:
  "is_square n A \<Longrightarrow> np_transpose A = mat n n (\<lambda>i j. A ! j ! i)"
  by (simp add: np_transpose_def is_square_nrows is_square_ncols)

lemma matmul_square:
  "is_square n A \<Longrightarrow> is_square n B \<Longrightarrow>
   matmul A B = mat n n (\<lambda>i j. \<Sum>k<n. A ! i ! k * B ! k ! j)"
  by (simp add: matmul_def is_square_nrows is_square_ncols sum_list_map_upt0)

lemma sum_delta_left:
  fixes a :: "nat \<Rightarrow> real"
  shows "i < n \<Longrightarrow> (\<Sum>k<n. (if i = k then a k else 0) * b k) = a i * b i"
proof -
  assume "i < n"
  have "(\<Sum>k<n. (if i = k then a k else 0) * b k) = (\<Sum>k<n. if k = i then a k * b k else 0)"
    by (rule sum.cong) auto
  also have "\<dots> = a i * b i"
    using \<open>i < n\<close> by (simp add: sum.delta)
  finally show ?thesis .
qed

lemma sum_delta_right:
  fixes a :: "nat \<Rightarrow> real"
  shows "j < n \<Longrightarrow> (\<Sum>k<n. b k * (if k = j then a k else 0)) = b j * a j"
proof -
  assume "j < n"
  have "(\<Sum>k<n. b k * (if k = j then a k else 0)) = (\<Sum>k<n. if k = j then b k * a k else 0)"
    by (rule sum.cong) auto
  also have "\<dots> = b j * a j"
    using \<open>j < n\<close> by (simp add: sum.delta)
  finally show ?thesis .
qed

lemma generator_square:
  assumes "is_square n H"
  shows "generator H = mat n n (eta_entry H)"
proof -
  let ?H0 = "mat n n (\<lambda>i j. if i = j then H ! i ! i else 0)"
  let ?V = "mat n n (\<lambda>i j. H ! i ! j - ?H0 ! i ! j)"
  have H0: "np_diag_matrix (np_diag_vector H) = ?H0"
    by (rule diag_part_square[OF assms])
  have V: "np_sub H ?H0 = ?V"
    by (rule np_sub_square[OF assms])
  have e1: "matmul ?H0 ?V = mat n n (\<lambda>i j. H ! i ! i * (if i = j then 0 else H ! i ! j))"
  proof -
    have "(\<Sum>k<n. ?H0 ! i ! k * ?V ! k ! j) = H ! i ! i * (if i = j then 0 else H ! i ! j)"
      if "i < n" "j < n" for i j
    proof -
      have "(\<Sum>k<n. ?H0 ! i ! k * ?V ! k ! j)
          = (\<Sum>k<n. (if i = k then H ! k ! k else 0) * (if k = j then 0 else H ! k ! j))"
        using that by (intro sum.cong) (auto simp: mat_nth)
      also have "\<dots> = H ! i ! i * (if i = j then 0 else H ! i ! j)"
        using that by (simp only: sum_delta_left)
      finally show ?thesis .
    qed
    then show ?thesis
      by (simp add: matmul_square[OF is_square_mat is_square_mat] mat_eq_iff)
  qed
  have e2: "matmul ?V ?H0 = mat n n (\<lambda>i j. (if i = j then 0 else H ! i ! j) * H ! j ! j)"
  proof -
    have "(\<Sum>k<n. ?V ! i ! k * ?H0 ! k ! j) = (if i = j then 0 else H ! i ! j) * H ! j ! j"
      if "i < n" "j < n" for i j
    proof -
      have "(\<Sum>k<n. ?V ! i ! k * ?H0 ! k ! j)
          = (\<Sum>k<n. (if i = k then 0 else H ! i ! k) * (if k = j then H ! k ! k else 0))"
        using that by (intro sum.cong) (auto simp: mat_nth)
      also have "\<dots> = (if i = j then 0 else H ! i ! j) * H ! j ! j"
        using that by (simp only: sum_delta_right)
      finally show ?thesis .
    qed
    then show ?thesis
      by (simp add: matmul_square[OF is_square_mat is_square_mat] mat_eq_iff)
  qed
  show ?thesis
    unfolding generator_def Let_def H0 V e1 e2
    by (simp add: np_sub_square[OF is_square_mat] mat_eq_iff mat_nth eta_entry_def algebra_simps)
qed

subsection \<open>The loop body is the forward-Euler step\<close>

lemma is_square_diagonal_part: "is_square n (diagonal_part n H)"
  by (simp add: diagonal_part_def is_square_mat)
lemma is_square_matrix_diff: "is_square n (matrix_diff n A B)"
  by (simp add: matrix_diff_def is_square_mat)
lemma is_square_matrix_sum: "is_square n (matrix_sum n A B)"
  by (simp add: matrix_sum_def is_square_mat)
lemma is_square_scalar_mult: "is_square n (scalar_mult n c A)"
  by (simp add: scalar_mult_def is_square_mat)
lemma is_square_matrix_product: "is_square n (matrix_product n A B)"
  by (simp add: matrix_product_def is_square_mat)
lemma is_square_identity_matrix: "is_square n (identity_matrix n)"
  by (simp add: identity_matrix_def is_square_mat)
lemma is_square_spec_generator: "is_square n (spec_generator n H)"
  by (simp add: spec_generator_def Let_def is_square_matrix_diff)

lemmas is_square_spec =
  is_square_diagonal_part is_square_matrix_diff is_square_matrix_sum is_square_scalar_mult
  is_square_matrix_product is_square_identity_matrix is_square_spec_generator

lemma np_identity_spec: "np_identity n = identity_matrix n"
  by (simp add: np_identity_def identity_matrix_def)

lemma diag_part_spec:
  "is_square n A \<Longrightarrow> np_diag_matrix (np_diag_vector A) = diagonal_part n A"
  by (simp add: diag_part_square diagonal_part_def mat_eq_iff)

lemma np_sub_spec: "is_square n A \<Longrightarrow> np_sub A B = matrix_diff n A B"
  by (simp add: np_sub_square matrix_diff_def)

lemma np_add_spec: "is_square n A \<Longrightarrow> np_add A B = matrix_sum n A B"
  by (simp add: np_add_square matrix_sum_def)

lemma np_scale_spec: "is_square n A \<Longrightarrow> np_scale c A = scalar_mult n c A"
  by (simp add: np_scale_square scalar_mult_def)

lemma matmul_spec: "is_square n A \<Longrightarrow> is_square n B \<Longrightarrow> matmul A B = matrix_product n A B"
  by (simp add: matmul_square matrix_product_def)

lemma generator_steps:
  assumes "is_square n A" and "is_square n B" and "is_square n C" and "is_square n D"
  shows "np_sub (matmul A B) (matmul C D) =
           matrix_diff n (matrix_product n A B) (matrix_product n C D)"
  by (simp add: matmul_spec[OF assms(1,2)] matmul_spec[OF assms(3,4)]
      np_sub_spec[OF is_square_matrix_product])

lemma generator_spec:
  assumes "is_square n H"
  shows "generator H = spec_generator n H"
  unfolding generator_def spec_generator_def Let_def
    diag_part_spec[OF assms] np_sub_spec[OF assms]
  by (rule generator_steps) (rule is_square_diagonal_part is_square_matrix_diff)+

lemma shape_square: "is_square n A \<Longrightarrow> shape A = (n, n)"
  by (simp add: shape_def is_square_nrows is_square_ncols)

lemma length_concat_square: "is_square n A \<Longrightarrow> length (concat A) = n * n"
proof -
  assume sq: "is_square n A"
  have "length (concat A) = sum_list (map length A)"
    by (simp add: length_concat)
  also have "map length A = replicate n n"
    using sq by (auto simp: is_square_def list_all_length list_eq_iff_nth_eq)
  also have "sum_list (replicate n n) = n * n"
    by (simp add: sum_list_replicate)
  finally show ?thesis .
qed

lemma flow_body_square:
  assumes H: "is_square n H" and U: "is_square n U" and n: "0 < n"
  shows "flow_body n dl (H, Vmax, U) =
           Inr (fst (euler_step n dl (H, U)), Some (off_diag_measure H), snd (euler_step n dl (H, U)))"
proof -
  let ?H0 = "diagonal_part n H"
  let ?V = "matrix_diff n H ?H0"
  have H0: "np_diag_matrix (np_diag_vector H) = ?H0"
    by (rule diag_part_spec[OF H])
  have V: "np_sub H ?H0 = ?V"
    by (rule np_sub_spec[OF H])
  have sh: "shape ?H0 = shape H"
    by (simp add: shape_square[OF H] shape_square[OF is_square_diagonal_part])
  have len: "length (np_ravel ?V) = n ^ 2"
    by (simp add: np_ravel_def length_concat_square[OF is_square_matrix_diff] power2_eq_square)
  have ne: "np_ravel ?V \<noteq> []"
    using len n by auto
  let ?eta = "spec_generator n H"
  have eta: "np_sub (matmul ?H0 ?V) (matmul ?V ?H0) = ?eta"
    unfolding spec_generator_def Let_def
    by (rule generator_steps) (rule is_square_diagonal_part is_square_matrix_diff)+
  have sqe: "is_square n ?eta"
    by (rule is_square_spec_generator)
  have dH: "np_sub (matmul ?eta H) (matmul H ?eta) =
              matrix_diff n (matrix_product n ?eta H) (matrix_product n H ?eta)"
    by (rule generator_steps) (rule sqe H)+
  have H': "np_add H (np_scale dl (matrix_diff n (matrix_product n ?eta H) (matrix_product n H ?eta)))
          = matrix_sum n H (scalar_mult n dl (matrix_diff n (matrix_product n ?eta H) (matrix_product n H ?eta)))"
    by (simp add: np_add_spec[OF H] np_scale_spec[OF is_square_matrix_diff])
  have U': "matmul (np_add (np_identity n) (np_scale dl ?eta)) U
          = matrix_product n (matrix_sum n (identity_matrix n) (scalar_mult n dl ?eta)) U"
    by (simp add: np_identity_spec np_scale_spec[OF sqe] np_add_spec[OF is_square_identity_matrix]
        matmul_spec[OF is_square_matrix_sum U])
  have "flow_body n dl (H, Vmax, U) =
          Inr (np_add H (np_scale dl (np_sub (matmul ?eta H) (matmul H ?eta))),
               Some (np_max (map abs (np_ravel ?V))),
               matmul (np_add (np_identity n) (np_scale dl ?eta)) U)"
    unfolding flow_body_def Let_def prod.case H0 V eta
    using sh len ne by simp
  then show ?thesis
    unfolding dH H' U'
    by (simp add: euler_step_def Let_def off_diag_measure_def H0 V)
qed

lemma is_square_euler_step:
  "is_square n (fst (euler_step n dl s))" "is_square n (snd (euler_step n dl s))"
  by (cases s; simp add: euler_step_def Let_def is_square_spec)+

lemma is_square_euler_funpow:
  "is_square n (fst s) \<Longrightarrow> is_square n (snd s) \<Longrightarrow>
   is_square n (fst ((euler_step n dl ^^ k) s)) \<and> is_square n (snd ((euler_step n dl ^^ k) s))"
  by (induction k) (simp_all add: is_square_euler_step)

text \<open>
  On a non-empty square array the loop never raises: after \<open>k\<close> passes the store holds
  the \<open>k\<close>-th iterate at \<open>a2\<close>, and \<open>Vmax\<close> is the measure of the iterate before.
\<close>

lemma flow_loop_square:
  assumes "is_square n (h ! a2)" and "is_square n U" and "0 < n" and "a2 < length h"
  shows "flow_loop n dl a2 k (h, Vmax, U) =
           (h[a2 := fst ((euler_step n dl ^^ k) (h ! a2, U))],
            Inr (case k of 0 \<Rightarrow> Vmax
                 | Suc m \<Rightarrow> Some (off_diag_measure (fst ((euler_step n dl ^^ m) (h ! a2, U)))),
                 snd ((euler_step n dl ^^ k) (h ! a2, U))))"
  using assms
proof (induction k arbitrary: h Vmax U)
  case 0
  then show ?case by simp
next
  case (Suc k)
  let ?s = "euler_step n dl (h ! a2, U)"
  let ?h = "h[a2 := fst ?s]"
  have body: "flow_body n dl (h ! a2, Vmax, U) = Inr (fst ?s, Some (off_diag_measure (h ! a2)), snd ?s)"
    by (rule flow_body_square) (use Suc.prems in auto)
  have nth: "?h ! a2 = fst ?s"
    using Suc.prems by simp
  have IH: "flow_loop n dl a2 k (?h, Some (off_diag_measure (h ! a2)), snd ?s) =
           (?h[a2 := fst ((euler_step n dl ^^ k) (?h ! a2, snd ?s))],
            Inr (case k of 0 \<Rightarrow> Some (off_diag_measure (h ! a2))
                 | Suc m \<Rightarrow> Some (off_diag_measure (fst ((euler_step n dl ^^ m) (?h ! a2, snd ?s)))),
                 snd ((euler_step n dl ^^ k) (?h ! a2, snd ?s))))"
    by (rule Suc.IH) (use Suc.prems in \<open>simp_all add: is_square_euler_step\<close>)
  have pow: "(euler_step n dl ^^ m) (fst ?s, snd ?s) = (euler_step n dl ^^ Suc m) (h ! a2, U)" for m
    by (simp add: funpow_swap1)
  show ?case
    unfolding flow_loop.simps body sum.case prod.case IH nth pow
    by (cases k) (simp_all add: funpow_swap1)
qed

lemma flow_square:
  assumes "a < length h" and "is_square n (h ! a)" and "0 < n" and "0 < steps"
  shows "flow h a dl steps =
           (h @ [fst (flowed n dl (nat steps) (h ! a))],
            Inr (length h,
                 off_diag_measure (fst (flowed n dl (nat steps - 1) (h ! a))),
                 snd (flowed n dl (nat steps) (h ! a))))"
proof -
  obtain m where m: "nat steps = Suc m"
    using \<open>0 < steps\<close> by (cases "nat steps") auto
  let ?h1 = "h @ [h ! a]"
  have n: "fst (shape (?h1 ! length h)) = n"
    using assms by (simp add: shape_square)
  have loop: "flow_loop n dl (length h) (Suc m) (?h1, None, np_identity n) =
           (?h1[length h := fst ((euler_step n dl ^^ Suc m) (?h1 ! length h, np_identity n))],
            Inr (case Suc m of 0 \<Rightarrow> None
                 | Suc m' \<Rightarrow> Some (off_diag_measure (fst ((euler_step n dl ^^ m') (?h1 ! length h, np_identity n)))),
                 snd ((euler_step n dl ^^ Suc m) (?h1 ! length h, np_identity n))))"
    by (rule flow_loop_square) (use assms in \<open>simp_all add: np_identity_spec is_square_spec\<close>)
  show ?thesis
    unfolding flow_def Let_def n m loop
    by (simp add: flowed_def np_identity_spec)
qed

subsection \<open>The store\<close>

lemma flow_loop_frame:
  "m \<le> a2 \<Longrightarrow> take m (fst (flow_loop n dl a2 k (h, Vmax, U))) = take m h"
proof (induction k arbitrary: h Vmax U)
  case 0
  then show ?case by simp
next
  case (Suc k)
  show ?case
  proof (cases "flow_body n dl (h ! a2, Vmax, U)")
    case (Inl e)
    then show ?thesis by simp
  next
    case (Inr s)
    obtain H2' Vmax' U' where s: "s = (H2', Vmax', U')"
      by (cases s) auto
    have "take m (fst (flow_loop n dl a2 k (h[a2 := H2'], Vmax', U'))) = take m (h[a2 := H2'])"
      by (rule Suc.IH[OF Suc.prems])
    then show ?thesis
      using Suc.prems by (simp add: Inr s)
  qed
qed

lemma flow_heap:
  "fst (flow h a dl steps) =
     fst (flow_loop (fst (shape (h ! a))) dl (length h) (nat steps)
            (h @ [h ! a], None, np_identity (fst (shape (h ! a)))))"
  by (simp add: flow_def Let_def split: prod.splits sum.splits option.splits)



subsection \<open>Symmetry, trace and the generator\<close>

lemma spec_generator_entries:
  "is_square n H \<Longrightarrow> spec_generator n H = mat n n (eta_entry H)"
  using generator_spec[of n H] generator_square[of n H] by simp

lemma euler_step_H:
  assumes "is_square n H"
  shows "fst (euler_step n dl (H, U)) =
     mat n n (\<lambda>i j. H ! i ! j +
        dl * ((\<Sum>k<n. eta_entry H i k * H ! k ! j) - (\<Sum>k<n. H ! i ! k * eta_entry H k j)))"
proof -
  have 1: "(\<Sum>k<n. mat n n (eta_entry H) ! i ! k * H ! k ! j) = (\<Sum>k<n. eta_entry H i k * H ! k ! j)"
    if "i < n" for i j
    using that by (intro sum.cong) (auto simp: mat_nth)
  have 2: "(\<Sum>k<n. H ! i ! k * mat n n (eta_entry H) ! k ! j) = (\<Sum>k<n. H ! i ! k * eta_entry H k j)"
    if "j < n" for i j
    using that by (intro sum.cong) (auto simp: mat_nth)
  show ?thesis
    by (simp add: euler_step_def Let_def spec_generator_entries[OF assms] matrix_sum_def
        scalar_mult_def matrix_diff_def matrix_product_def mat_eq_iff mat_nth 1 2)
qed

lemma euler_step_U:
  assumes "is_square n H"
  shows "snd (euler_step n dl (H, U)) =
     mat n n (\<lambda>i j. \<Sum>k<n. ((if i = k then 1 else 0) + dl * eta_entry H i k) * U ! k ! j)"
proof -
  have 1: "(\<Sum>k<n. mat n n (\<lambda>i j. mat n n (\<lambda>i j. if i = j then 1 else 0) ! i ! j
                + mat n n (\<lambda>i j. dl * mat n n (eta_entry H) ! i ! j) ! i ! j) ! i ! k * U ! k ! j)
      = (\<Sum>k<n. ((if i = k then 1 else 0) + dl * eta_entry H i k) * U ! k ! j)"
    if "i < n" for i j
    using that by (intro sum.cong) (auto simp: mat_nth)
  show ?thesis
    by (simp add: euler_step_def Let_def spec_generator_entries[OF assms] matrix_sum_def
        scalar_mult_def identity_matrix_def matrix_product_def mat_eq_iff 1)
qed

lemma is_symmetric_square:
  "is_square n A \<Longrightarrow> is_symmetric A \<longleftrightarrow> (\<forall>i<n. \<forall>j<n. A ! j ! i = A ! i ! j)"
proof -
  assume sq: "is_square n A"
  have "is_symmetric A \<longleftrightarrow> mat n n (\<lambda>i j. A ! j ! i) = mat n n (\<lambda>i j. A ! i ! j)"
    by (simp add: is_symmetric_def np_transpose_square[OF sq] is_square_eq_mat[OF sq])
  then show ?thesis
    by (simp add: mat_eq_iff)
qed

lemma is_symmetric_is_square: "is_symmetric A \<Longrightarrow> is_square (nrows A) A"
proof -
  assume "is_symmetric A"
  then have A: "A = mat (ncols A) (nrows A) (\<lambda>i j. A ! j ! i)"
    by (simp add: is_symmetric_def np_transpose_def)
  have "length A = ncols A"
    by (subst A) (simp add: length_mat)
  then have "A = mat (nrows A) (nrows A) (\<lambda>i j. A ! j ! i)"
    using A by (simp add: nrows_def)
  then show ?thesis
    using is_square_mat[of "nrows A" "\<lambda>i j. A ! j ! i"] by simp
qed

lemma is_antisymmetric_square:
  "is_square n A \<Longrightarrow> is_antisymmetric A \<longleftrightarrow> (\<forall>i<n. \<forall>j<n. A ! j ! i = - (A ! i ! j))"
  by (simp add: is_antisymmetric_def np_transpose_square np_neg_square mat_eq_iff)

lemma eta_entry_antisym: "H ! j ! i = H ! i ! j \<Longrightarrow> eta_entry H j i = - eta_entry H i j"
  by (simp add: eta_entry_def algebra_simps)

lemma euler_step_symmetric:
  assumes sq: "is_square n H" and sym: "is_symmetric H"
  shows "is_symmetric (fst (euler_step n dl (H, U)))"
proof -
  have H: "H ! j ! i = H ! i ! j" if "i < n" "j < n" for i j
    using sym that by (simp add: is_symmetric_square[OF sq])
  have "(\<Sum>k<n. eta_entry H j k * H ! k ! i) - (\<Sum>k<n. H ! j ! k * eta_entry H k i)
      = (\<Sum>k<n. eta_entry H i k * H ! k ! j) - (\<Sum>k<n. H ! i ! k * eta_entry H k j)"
    if ij: "i < n" "j < n" for i j
  proof -
    have a: "(\<Sum>k<n. eta_entry H j k * H ! k ! i) = - (\<Sum>k<n. H ! i ! k * eta_entry H k j)"
      unfolding sum_negf[symmetric]
      by (intro sum.cong) (auto simp: H ij eta_entry_antisym[of H _ j])
    have b: "(\<Sum>k<n. H ! j ! k * eta_entry H k i) = - (\<Sum>k<n. eta_entry H i k * H ! k ! j)"
      unfolding sum_negf[symmetric]
      by (intro sum.cong) (auto simp: H ij eta_entry_antisym[of H i])
    show ?thesis by (simp add: a b)
  qed
  then have "\<forall>i<n. \<forall>j<n.
      H ! j ! i + dl * ((\<Sum>k<n. eta_entry H j k * H ! k ! i) - (\<Sum>k<n. H ! j ! k * eta_entry H k i))
    = H ! i ! j + dl * ((\<Sum>k<n. eta_entry H i k * H ! k ! j) - (\<Sum>k<n. H ! i ! k * eta_entry H k j))"
    using H by presburger
  then show ?thesis
    unfolding is_symmetric_square[OF is_square_mat] euler_step_H[OF sq]
    by (simp add: mat_nth)
qed

lemma trace_square: "is_square n A \<Longrightarrow> trace A = (\<Sum>i<n. A ! i ! i)"
  by (simp add: trace_def np_diag_vector_square sum_list_map_upt0)

lemma euler_step_trace:
  assumes sq: "is_square n H"
  shows "trace (fst (euler_step n dl (H, U))) = trace H"
proof -
  have sw: "(\<Sum>i<n. \<Sum>k<n. H ! i ! k * eta_entry H k i) = (\<Sum>i<n. \<Sum>k<n. eta_entry H i k * H ! k ! i)"
    by (subst sum.swap) (simp add: mult.commute)
  have "trace (fst (euler_step n dl (H, U))) =
      (\<Sum>i<n. H ! i ! i + dl * ((\<Sum>k<n. eta_entry H i k * H ! k ! i) - (\<Sum>k<n. H ! i ! k * eta_entry H k i)))"
    unfolding euler_step_H[OF sq] trace_square[OF is_square_mat]
    by (intro sum.cong) (auto simp: mat_nth)
  also have "\<dots> = (\<Sum>i<n. H ! i ! i) +
      dl * ((\<Sum>i<n. \<Sum>k<n. eta_entry H i k * H ! k ! i) - (\<Sum>i<n. \<Sum>k<n. H ! i ! k * eta_entry H k i))"
    by (simp add: sum.distrib sum_subtractf flip: sum_distrib_left)
  also have "\<dots> = trace H"
    by (simp add: sw trace_square[OF sq])
  finally show ?thesis .
qed

lemma generator_antisymmetric:
  assumes sq: "is_square n H" and sym: "is_symmetric H"
  shows "is_antisymmetric (generator H)"
proof -
  have H: "H ! j ! i = H ! i ! j" if "i < n" "j < n" for i j
    using sym that by (simp add: is_symmetric_square[OF sq])
  have "mat n n (eta_entry H) ! j ! i = - (mat n n (eta_entry H) ! i ! j)"
    if "i < n" "j < n" for i j
    unfolding mat_nth[OF that] mat_nth[OF that(2,1)]
    by (rule eta_entry_antisym) (rule H[OF that])
  then show ?thesis
    unfolding generator_square[OF sq] is_antisymmetric_square[OF is_square_mat]
    by blast
qed

subsection \<open>Iterated steps and the outcome of \<open>flow\<close>\<close>

lemma flowed_0: "flowed n dl 0 H = (H, identity_matrix n)"
  by (simp add: flowed_def)

lemma flowed_Suc: "flowed n dl (Suc k) H = euler_step n dl (flowed n dl k H)"
  by (simp add: flowed_def)

lemma flowed_Suc_pair:
  "flowed n dl (Suc k) H = euler_step n dl (fst (flowed n dl k H), snd (flowed n dl k H))"
  by (simp add: flowed_Suc)

lemma flowed_square:
  "is_square n H \<Longrightarrow> is_square n (fst (flowed n dl k H)) \<and> is_square n (snd (flowed n dl k H))"
  unfolding flowed_def
  by (rule is_square_euler_funpow) (simp_all add: is_square_identity_matrix)

lemma flowed_symmetric:
  "is_square n H \<Longrightarrow> is_symmetric H \<Longrightarrow> is_symmetric (fst (flowed n dl k H))"
proof (induction k)
  case 0
  then show ?case by (simp add: flowed_0)
next
  case (Suc k)
  show ?case
    unfolding flowed_Suc_pair
    by (rule euler_step_symmetric) (use Suc flowed_square in auto)
qed

lemma flowed_trace:
  "is_square n H \<Longrightarrow> trace (fst (flowed n dl k H)) = trace H"
proof (induction k)
  case 0
  then show ?case by (simp add: flowed_0)
next
  case (Suc k)
  have "trace (fst (flowed n dl (Suc k) H)) = trace (fst (flowed n dl k H))"
    unfolding flowed_Suc_pair
    by (rule euler_step_trace) (use Suc.prems flowed_square in auto)
  with Suc show ?case by simp
qed

lemma H2_after_square:
  assumes "a < length h" and "is_square n (h ! a)" and "0 < n"
  shows "H2_after h a dl k = fst (flowed n dl k (h ! a))"
proof -
  let ?h1 = "h @ [h ! a]"
  have n: "fst (shape (h ! a)) = n"
    using assms by (simp add: shape_square)
  have "flow_loop n dl (length h) k (?h1, None, np_identity n) =
           (?h1[length h := fst ((euler_step n dl ^^ k) (?h1 ! length h, np_identity n))],
            Inr (case k of 0 \<Rightarrow> None
                 | Suc m \<Rightarrow> Some (off_diag_measure (fst ((euler_step n dl ^^ m) (?h1 ! length h, np_identity n)))),
                 snd ((euler_step n dl ^^ k) (?h1 ! length h, np_identity n))))"
    by (rule flow_loop_square) (use assms in \<open>simp_all add: np_identity_spec is_square_spec\<close>)
  then show ?thesis
    by (simp add: H2_after_def Let_def n flowed_def np_identity_spec)
qed

lemma flow_returned:
  assumes "flow h a dl steps = (h', Inr (a2, Vmax, U))"
  shows "a2 = length h \<and> h' ! a2 = H2_after h a dl (nat steps)"
  using assms
  by (auto simp: flow_def H2_after_def Let_def split: prod.splits sum.splits option.splits)

lemma shape_diag_part:
  "shape (np_diag_matrix (np_diag_vector H)) = (min (nrows H) (ncols H), min (nrows H) (ncols H))"
  by (simp add: np_diag_matrix_def np_diag_vector_def shape_def nrows_mat ncols_mat_square)

lemma flow_body_Inr:
  assumes "flow_body n dl (H, Vmax, U) = Inr r" and "is_ndarray H"
  shows "is_square (nrows H) H \<and> H \<noteq> []"
proof -
  have sh: "shape (np_diag_matrix (np_diag_vector H)) = shape H"
    using assms(1) by (auto simp: flow_body_def Let_def split: if_splits)
  then have eq: "nrows H = ncols H"
    unfolding shape_diag_part by (auto simp: shape_def)
  have sq: "is_square (nrows H) H"
    by (rule is_ndarray_square[OF assms(2) eq])
  have "np_ravel (np_sub H (np_diag_matrix (np_diag_vector H))) \<noteq> []"
    using assms(1) by (auto simp: flow_body_def Let_def split: if_splits)
  then have "H \<noteq> []"
    by (auto simp: np_ravel_def np_sub_def nrows_def mat_def)
  with sq show ?thesis by simp
qed


lemma flow_not_square:
  assumes "0 < steps" and "\<not> (is_square (nrows (h ! a)) (h ! a) \<and> h ! a \<noteq> [])" and "is_ndarray (h ! a)"
  shows "flow h a dl steps = (h @ [h ! a], Inl ValueError)"
proof -
  obtain m where m: "nat steps = Suc m"
    using assms(1) by (cases "nat steps") auto
  let ?n = "fst (shape (h ! a))"
  have "flow_body ?n dl (h ! a, None, np_identity ?n) = Inl ValueError"
  proof (cases "flow_body ?n dl (h ! a, None, np_identity ?n)")
    case (Inl e)
    then show ?thesis
      by (auto simp: flow_body_def Let_def split: if_splits)
  next
    case (Inr r')
    from flow_body_Inr[OF this assms(3)] assms(2) show ?thesis by simp
  qed
  then show ?thesis
    by (simp add: flow_def Let_def m)
qed

subsection \<open>The off-diagonality measure and diagonal Hamiltonians\<close>

lemma np_max_Max: "xs \<noteq> [] \<Longrightarrow> np_max xs = Max (set xs)"
proof -
  assume "xs \<noteq> []"
  then obtain x ys where xs: "xs = x # ys"
    by (cases xs) auto
  show ?thesis
    unfolding xs np_max_def list.sel by (rule Max.set_eq_fold[symmetric])
qed

lemma set_concat_mat: "set (concat (mat r c f)) = {f i j | i j. i < r \<and> j < c}"
  by (auto simp: mat_def) blast

lemma off_diag_part_square:
  assumes "is_square n H"
  shows "np_sub H (np_diag_matrix (np_diag_vector H)) = mat n n (\<lambda>i j. if i = j then 0 else H ! i ! j)"
  unfolding diag_part_square[OF assms] np_sub_square[OF assms]
  by (simp add: mat_eq_iff mat_nth)

lemma off_diag_measure_set:
  assumes "is_square n H" and "0 < n"
  shows "off_diag_measure H = Max (insert 0 {\<bar>H ! i ! j\<bar> | i j. i < n \<and> j < n \<and> i \<noteq> j})"
proof -
  let ?V = "mat n n (\<lambda>i j. if i = j then 0 else H ! i ! j)"
  have ne: "map abs (np_ravel ?V) \<noteq> []"
    using assms(2) by (cases n) (simp_all add: np_ravel_def mat_def upt_conv_Cons del: upt_Suc)
  have "abs ` {(if i = j then 0 else H ! i ! j) | i j. i < n \<and> j < n}
      = insert 0 {\<bar>H ! i ! j\<bar> | i j. i < n \<and> j < n \<and> i \<noteq> j}" (is "?L = ?R")
  proof (rule set_eqI)
    fix x
    show "x \<in> ?L \<longleftrightarrow> x \<in> ?R"
    proof
      assume "x \<in> ?L"
      then obtain i j where ij: "i < n" "j < n" and x: "x = \<bar>if i = j then 0 else H ! i ! j\<bar>"
        by blast
      show "x \<in> ?R"
      proof (cases "i = j")
        case True
        with x show ?thesis by simp
      next
        case False
        with x ij show ?thesis by auto
      qed
    next
      assume "x \<in> ?R"
      then consider "x = 0" | i j where "i < n" "j < n" "i \<noteq> j" "x = \<bar>H ! i ! j\<bar>"
        by blast
      then show "x \<in> ?L"
      proof cases
        case 1
        have "(if (0::nat) = 0 then 0 else H ! 0 ! 0) \<in> {(if i = j then 0 else H ! i ! j) | i j. i < n \<and> j < n}"
          using assms(2) by blast
        then have "\<bar>if (0::nat) = 0 then 0 else H ! 0 ! 0\<bar> \<in> ?L"
          by (rule imageI)
        with 1 show ?thesis by simp
      next
        case 2
        have "(if i = j then 0 else H ! i ! j) \<in> {(if i = j then 0 else H ! i ! j) | i j. i < n \<and> j < n}"
          using 2 by blast
        then have "\<bar>if i = j then 0 else H ! i ! j\<bar> \<in> ?L"
          by (rule imageI)
        with 2 show ?thesis by simp
      qed
    qed
  qed
  then have "set (map abs (np_ravel ?V)) = insert 0 {\<bar>H ! i ! j\<bar> | i j. i < n \<and> j < n \<and> i \<noteq> j}"
    by (simp only: np_ravel_def set_map set_concat_mat)
  then show ?thesis
    unfolding off_diag_measure_def off_diag_part_square[OF assms(1)] np_max_Max[OF ne]
    by simp
qed

lemma max_abs_off_diagonal_set:
  "max_abs_off_diagonal n H = Max {\<bar>H ! i ! j\<bar> | i j. i < n \<and> j < n \<and> i \<noteq> j}"
proof -
  have "set (concat (map (\<lambda>i. map (\<lambda>j. \<bar>H ! i ! j\<bar>) (filter (\<lambda>j. j \<noteq> i) [0..<n])) [0..<n]))
      = {\<bar>H ! i ! j\<bar> | i j. i < n \<and> j < n \<and> i \<noteq> j}"
    by auto blast
  then show ?thesis
    by (simp add: max_abs_off_diagonal_def)
qed

lemma off_diag_measure_max_abs:
  assumes "is_square n H" and "2 \<le> n"
  shows "off_diag_measure H = max_abs_off_diagonal n H"
proof -
  let ?S = "{\<bar>H ! i ! j\<bar> | i j. i < n \<and> j < n \<and> i \<noteq> j}"
  have "?S \<subseteq> (\<lambda>(i, j). \<bar>H ! i ! j\<bar>) ` ({..<n} \<times> {..<n})"
    by auto
  then have fin: "finite ?S"
    by (rule finite_subset) simp
  have mem: "\<bar>H ! 0 ! 1\<bar> \<in> ?S"
    using assms(2) by force
  then have ne: "?S \<noteq> {}"
    by blast
  have "0 \<le> \<bar>H ! 0 ! 1\<bar>" by simp
  also have "\<dots> \<le> Max ?S"
    by (rule Max_ge[OF fin mem])
  finally have "max 0 (Max ?S) = Max ?S"
    by simp
  then have "Max (insert 0 ?S) = Max ?S"
    by (simp add: Max_insert[OF fin ne])
  then show ?thesis
    using assms by (simp add: off_diag_measure_set max_abs_off_diagonal_set)
qed

lemma is_diagonal_square: "is_diagonal H \<Longrightarrow> is_square (nrows H) H"
proof -
  assume "is_diagonal H"
  then have H: "H = np_diag_matrix (np_diag_vector H)"
    by (simp add: is_diagonal_def)
  let ?k = "length (np_diag_vector H)"
  have sq: "is_square ?k (np_diag_matrix (np_diag_vector H))"
    by (simp add: np_diag_matrix_def is_square_mat)
  then have "is_square ?k H"
    using H by simp
  then show ?thesis
    by (simp add: is_square_nrows)
qed

lemma is_diagonal_entries:
  assumes "is_square n H"
  shows "is_diagonal H \<longleftrightarrow> (\<forall>i<n. \<forall>j<n. i \<noteq> j \<longrightarrow> H ! i ! j = 0)"
proof -
  have "is_diagonal H \<longleftrightarrow>
      mat n n (\<lambda>i j. if i = j then H ! i ! i else 0) = mat n n (\<lambda>i j. H ! i ! j)"
    by (simp add: is_diagonal_def diag_part_square[OF assms] is_square_eq_mat[OF assms])
  then show ?thesis
    unfolding mat_eq_iff by auto
qed

lemma eta_entry_diagonal:
  assumes "is_square n H" and "is_diagonal H" and "i < n" and "j < n"
  shows "eta_entry H i j = 0"
  using assms is_diagonal_entries[OF assms(1)]
  by (cases "i = j") (simp_all add: eta_entry_def)

lemma generator_diagonal:
  assumes "is_square n H" and "is_diagonal H"
  shows "generator H = np_zeros n"
  unfolding generator_square[OF assms(1)] np_zeros_def
  by (simp add: mat_eq_iff eta_entry_diagonal[OF assms])

lemma euler_step_diagonal:
  assumes H: "is_square n H" and d: "is_diagonal H" and U: "is_square n U"
  shows "euler_step n dl (H, U) = (H, U)"
proof -
  have 1: "(\<Sum>k<n. eta_entry H i k * H ! k ! j) = 0" if "i < n" for i j
    using that by (intro sum.neutral) (simp add: eta_entry_diagonal[OF H d])
  have 2: "(\<Sum>k<n. H ! i ! k * eta_entry H k j) = 0" if "j < n" for i j
    using that by (intro sum.neutral) (simp add: eta_entry_diagonal[OF H d])
  have "fst (euler_step n dl (H, U)) = mat n n (\<lambda>i j. H ! i ! j)"
    unfolding euler_step_H[OF H] by (simp add: mat_eq_iff 1 2)
  then have a: "fst (euler_step n dl (H, U)) = H"
    by (simp add: is_square_eq_mat[OF H])
  have 3: "(\<Sum>k<n. ((if i = k then 1 else 0) + dl * eta_entry H i k) * U ! k ! j) = U ! i ! j"
    if "i < n" for i j
  proof -
    have "(\<Sum>k<n. ((if i = k then 1 else 0) + dl * eta_entry H i k) * U ! k ! j)
        = (\<Sum>k<n. (if i = k then 1 else 0) * U ! k ! j)"
      using that by (intro sum.cong) (simp_all add: eta_entry_diagonal[OF H d])
    also have "\<dots> = 1 * U ! i ! j"
      by (rule sum_delta_left[OF that])
    finally show ?thesis by simp
  qed
  have "snd (euler_step n dl (H, U)) = mat n n (\<lambda>i j. U ! i ! j)"
    unfolding euler_step_U[OF H] by (simp add: mat_eq_iff 3)
  then have b: "snd (euler_step n dl (H, U)) = U"
    by (simp add: is_square_eq_mat[OF U])
  from a b show ?thesis
    by (simp add: prod_eq_iff)
qed

lemma flowed_diagonal:
  assumes "is_square n H" and "is_diagonal H"
  shows "flowed n dl k H = (H, identity_matrix n)"
proof (induction k)
  case 0
  show ?case by (simp add: flowed_0)
next
  case (Suc k)
  show ?case
    unfolding flowed_Suc Suc
    by (rule euler_step_diagonal[OF assms is_square_identity_matrix])
qed

lemma off_diag_measure_diagonal:
  assumes "is_square n H" and "is_diagonal H" and "0 < n"
  shows "off_diag_measure H = 0"
proof -
  have "{\<bar>H ! i ! j\<bar> | i j. i < n \<and> j < n \<and> i \<noteq> j} \<subseteq> {0}"
    using assms(2) by (auto simp: is_diagonal_entries[OF assms(1)])
  then have "insert 0 {\<bar>H ! i ! j\<bar> | i j. i < n \<and> j < n \<and> i \<noteq> j} = {0}"
    by blast
  then show ?thesis
    unfolding off_diag_measure_set[OF assms(1,3)] by (simp only: Max_singleton)
qed

lemma flow_diagonal_noop:
  assumes "a < length h" and "is_diagonal (h ! a)" and "h ! a \<noteq> []" and "0 < steps"
  shows "flow h a dl steps = (h @ [h ! a], Inr (length h, 0, np_identity (nrows (h ! a))))"
proof -
  let ?n = "nrows (h ! a)"
  have sq: "is_square ?n (h ! a)"
    by (rule is_diagonal_square[OF assms(2)])
  have n: "0 < ?n"
    using assms(3) by (simp add: nrows_def)
  show ?thesis
    unfolding flow_square[OF assms(1) sq n assms(4)] flowed_diagonal[OF sq assms(2)]
    by (simp add: off_diag_measure_diagonal[OF sq assms(2) n] np_identity_spec)
qed

subsection \<open>The array \<open>H2\<close> pass by pass\<close>

lemma flow_loop_raises:
  assumes "flow_body n dl (h ! a2, Vmax, U) = Inl e"
  shows "fst (flow_loop n dl a2 k (h, Vmax, U)) = h"
  using assms by (cases k) simp_all

lemma H2_after_raises:
  assumes "flow_body (fst (shape (h ! a))) dl (h ! a, None, np_identity (fst (shape (h ! a)))) = Inl e"
  shows "H2_after h a dl k = h ! a"
proof -
  let ?n = "fst (shape (h ! a))"
  have "flow_body ?n dl ((h @ [h ! a]) ! length h, None, np_identity ?n) = Inl e"
    using assms by simp
  from flow_loop_raises[OF this] show ?thesis
    by (simp add: H2_after_def Let_def)
qed

lemma H2_after_trace:
  assumes "a < length h" and "is_ndarray (h ! a)"
  shows "trace (H2_after h a dl k) = trace (h ! a)"
proof (cases "flow_body (fst (shape (h ! a))) dl (h ! a, None, np_identity (fst (shape (h ! a))))")
  case (Inl e)
  then show ?thesis
    by (simp add: H2_after_raises)
next
  case (Inr r)
  let ?n = "nrows (h ! a)"
  from flow_body_Inr[OF Inr assms(2)] have sq: "is_square ?n (h ! a)" and n: "0 < ?n"
    by (simp_all add: nrows_def)
  show ?thesis
    unfolding H2_after_square[OF assms(1) sq n] by (rule flowed_trace[OF sq])
qed

lemma H2_after_symmetric:
  assumes "a < length h" and "is_symmetric (h ! a)"
  shows "is_symmetric (H2_after h a dl k) \<and> shape (H2_after h a dl k) = shape (h ! a)"
proof (cases "flow_body (fst (shape (h ! a))) dl (h ! a, None, np_identity (fst (shape (h ! a))))")
  case (Inl e)
  then show ?thesis
    using assms(2) by (simp add: H2_after_raises)
next
  case (Inr r)
  let ?n = "nrows (h ! a)"
  have sq: "is_square ?n (h ! a)"
    by (rule is_symmetric_is_square[OF assms(2)])
  from flow_body_Inr[OF Inr is_square_ndarray[OF sq]] have n: "0 < ?n"
    by (simp add: nrows_def)
  have "is_square ?n (fst (flowed ?n dl k (h ! a)))"
    using flowed_square[OF sq] by blast
  then have "shape (fst (flowed ?n dl k (h ! a))) = shape (h ! a)"
    by (simp add: shape_square[OF sq] shape_square[of ?n "fst (flowed ?n dl k (h ! a))"])
  then show ?thesis
    unfolding H2_after_square[OF assms(1) sq n]
    by (simp add: flowed_symmetric[OF sq assms(2)])
qed

lemma flow_returns:
  assumes "a < length h" and "is_square n (h ! a)" and "0 < n" and "0 < steps"
  shows "flow h a dl steps =
           (h @ [H2_after h a dl (nat steps)],
            Inr (length h, off_diag_measure (H2_after h a dl (nat steps - 1)),
                 snd (flowed n dl (nat steps) (h ! a))))"
  unfolding H2_after_square[OF assms(1,2,3)] by (rule flow_square[OF assms])

lemma flow_body_generator:
  assumes "is_square n H2" and "0 < n"
  shows "flow_body n dl (H2, Vmax, U) =
           Inr (np_add H2 (np_scale dl (np_sub (matmul (generator H2) H2) (matmul H2 (generator H2)))),
                Some (off_diag_measure H2),
                matmul (np_add (np_identity n) (np_scale dl (generator H2))) U)"
proof -
  let ?H0 = "np_diag_matrix (np_diag_vector H2)"
  let ?V = "np_sub H2 ?H0"
  have sh: "shape ?H0 = shape H2"
    by (simp add: diag_part_spec[OF assms(1)] shape_square[OF assms(1)]
        shape_square[OF is_square_diagonal_part])
  have V: "?V = matrix_diff n H2 (diagonal_part n H2)"
    by (simp add: diag_part_spec[OF assms(1)] np_sub_spec[OF assms(1)])
  have len: "length (np_ravel ?V) = n ^ 2"
    unfolding V
    by (simp add: np_ravel_def length_concat_square[OF is_square_matrix_diff] power2_eq_square)
  have ne: "np_ravel ?V \<noteq> []"
    using len assms(2) by auto
  show ?thesis
    unfolding flow_body_def Let_def prod.case
    using sh len ne by (simp add: generator_def Let_def off_diag_measure_def)
qed

lemma flow_diagonal_each_step:
  assumes "a < length h" and "is_diagonal (h ! a)" and "h ! a \<noteq> []"
  shows "H2_after h a dl k = h ! a \<and> generator (H2_after h a dl k) = np_zeros (nrows (h ! a))"
proof -
  have sq: "is_square (nrows (h ! a)) (h ! a)"
    by (rule is_diagonal_square[OF assms(2)])
  have n: "0 < nrows (h ! a)"
    using assms(3) by (simp add: nrows_def)
  have "H2_after h a dl k = h ! a"
    by (simp add: H2_after_square[OF assms(1) sq n] flowed_diagonal[OF sq assms(2)])
  then show ?thesis
    by (simp add: generator_diagonal[OF sq assms(2)])
qed

subsection \<open>Worked examples\<close>

text \<open>
  Three runs, evaluated step by step: a \<open>2 \<times> 2\<close> Hamiltonian with \<open>dl = 1/10\<close>, the
  same size with \<open>dl = 1\<close>, where the flow diverges, and a \<open>3 \<times> 3\<close> Hamiltonian.
\<close>

lemma flowed_step:
  "flowed n dl k H = s \<Longrightarrow> euler_step n dl s = s' \<Longrightarrow> flowed n dl (Suc k) H = s'"
  by (simp add: flowed_Suc)

lemma exA_square: "is_square 2 [[2, 1], [1, 3]]"
  by code_simp

lemma exA_flowed_0: "flowed 2 (1 / 10) 0 [[2, 1], [1, 3]] = ([[2, 1], [1, 3]], [[1, 0], [0, 1]])"
  by code_simp

lemma exA_flowed_1:
  "flowed 2 (1 / 10) (Suc 0) [[2, 1], [1, 3]] =
     ([[9 / 5, 9 / 10], [9 / 10, 16 / 5]], [[1, - (1 / 10)], [1 / 10, 1]])"
proof -
  have "euler_step 2 (1 / 10) ([[2, 1], [1, 3]], [[1, 0], [0, 1]]) =
     ([[9 / 5, 9 / 10], [9 / 10, 16 / 5]], [[1, - (1 / 10)], [1 / 10, 1]])"
    by code_simp
  from flowed_step[OF exA_flowed_0 this] show ?thesis .
qed

lemma exA_flowed_2:
  "flowed 2 (1 / 10) 2 [[2, 1], [1, 3]] =
     ([[3933 / 2500, 1809 / 2500], [1809 / 2500, 8567 / 2500]],
      [[4937 / 5000, - (113 / 500)], [113 / 500, 4937 / 5000]])"
proof -
  have "euler_step 2 (1 / 10)
      ([[9 / 5, 9 / 10], [9 / 10, 16 / 5]], [[1, - (1 / 10)], [1 / 10, 1]]) =
     ([[3933 / 2500, 1809 / 2500], [1809 / 2500, 8567 / 2500]],
      [[4937 / 5000, - (113 / 500)], [113 / 500, 4937 / 5000]])"
    by code_simp
  from flowed_step[OF exA_flowed_1 this] show ?thesis by (simp add: numeral_2_eq_2)
qed





lemma exC_square: "is_square 3 [[1, 2, 0], [2, 0, 1], [0, 1, - 1]]"
  by code_simp

lemma exC_flowed_0:
  "flowed 3 (1 / 10) 0 [[1, 2, 0], [2, 0, 1], [0, 1, - 1]] =
     ([[1, 2, 0], [2, 0, 1], [0, 1, - 1]], [[1, 0, 0], [0, 1, 0], [0, 0, 1]])"
  by code_simp

lemma exC_flowed_1:
  "flowed 3 (1 / 10) (Suc 0) [[1, 2, 0], [2, 0, 1], [0, 1, - 1]] =
     ([[9 / 5, 9 / 5, 0], [9 / 5, - (3 / 5), 9 / 10], [0, 9 / 10, - (6 / 5)]],
      [[1, 1 / 5, 0], [- (1 / 5), 1, 1 / 10], [0, - (1 / 10), 1]])"
proof -
  have "euler_step 3 (1 / 10)
      ([[1, 2, 0], [2, 0, 1], [0, 1, - 1]], [[1, 0, 0], [0, 1, 0], [0, 0, 1]]) =
     ([[9 / 5, 9 / 5, 0], [9 / 5, - (3 / 5), 9 / 10], [0, 9 / 10, - (6 / 5)]],
      [[1, 1 / 5, 0], [- (1 / 5), 1, 1 / 10], [0, - (1 / 10), 1]])"
    by code_simp
  from flowed_step[OF exC_flowed_0 this] show ?thesis .
qed

lemma exC_flowed_2:
  "flowed 3 (1 / 10) 2 [[1, 2, 0], [2, 0, 1], [0, 1, - 1]] =
     ([[2097 / 625, 477 / 625, 729 / 2500],
       [477 / 625, - (1029 / 500), 2169 / 2500],
       [729 / 2500, 2169 / 2500, - (3243 / 2500)]],
      [[571 / 625, 79 / 125, 27 / 625],
       [- (79 / 125), 4541 / 5000, 77 / 500],
       [27 / 2500, - (77 / 500), 4973 / 5000]])"
proof -
  have "euler_step 3 (1 / 10)
     ([[9 / 5, 9 / 5, 0], [9 / 5, - (3 / 5), 9 / 10], [0, 9 / 10, - (6 / 5)]],
      [[1, 1 / 5, 0], [- (1 / 5), 1, 1 / 10], [0, - (1 / 10), 1]]) =
     ([[2097 / 625, 477 / 625, 729 / 2500],
       [477 / 625, - (1029 / 500), 2169 / 2500],
       [729 / 2500, 2169 / 2500, - (3243 / 2500)]],
      [[571 / 625, 79 / 125, 27 / 625],
       [- (79 / 125), 4541 / 5000, 77 / 500],
       [27 / 2500, - (77 / 500), 4973 / 5000]])"
    by code_simp
  from flowed_step[OF exC_flowed_1 this] show ?thesis by (simp add: numeral_2_eq_2)
qed

text \<open>The array \<open>H2\<close> of a call on a store that holds the argument alone.\<close>

lemma H2_after_single:
  "is_square n H \<Longrightarrow> 0 < n \<Longrightarrow> H2_after [H] 0 dl k = fst (flowed n dl k H)"
  using H2_after_square[of 0 "[H]" n dl k] by simp

lemma flow_single:
  "is_square n H \<Longrightarrow> 0 < n \<Longrightarrow> 0 < steps \<Longrightarrow>
   flow [H] 0 dl steps =
     ([H, fst (flowed n dl (nat steps) H)],
      Inr (1, off_diag_measure (fst (flowed n dl (nat steps - 1) H)),
           snd (flowed n dl (nat steps) H)))"
  using flow_square[of 0 "[H]" n steps dl] by simp

section \<open>The claims\<close>

text \<open>
  C1: every pass of the loop of \<open>flow\<close> is one forward-Euler step of the
  specification: from the current \<open>H2\<close> it takes the diagonal part \<open>H0\<close> and the
  remainder \<open>V = H2 - H0\<close>, computes \<open>\<eta> = H0\<cdot>V - V\<cdot>H0\<close>, and updates \<open>U\<close> to
  \<open>(I + dl\<cdot>\<eta>)\<cdot>U\<close> and \<open>H2\<close> to \<open>H2 + dl\<cdot>(\<eta>H2 - H2\<eta>)\<close>. A call with \<open>steps > 0\<close>
  on a non-empty square array returns the result of \<open>steps\<close> such steps, started
  from the argument and the identity.
\<close>

theorem flow_forward_euler:
  assumes "a < length h" and "is_square n (h ! a)" and "0 < n" and "0 < steps"
    and "is_square n H2" and "is_square n U"
  shows "flow_body n dl (H2, Vmax, U) =
           Inr (fst (euler_step n dl (H2, U)), Some (off_diag_measure H2),
                snd (euler_step n dl (H2, U))) \<and>
         flow h a dl steps =
           (h @ [fst (flowed n dl (nat steps) (h ! a))],
            Inr (length h, off_diag_measure (fst (flowed n dl (nat steps - 1) (h ! a))),
                 snd (flowed n dl (nat steps) (h ! a))))"
  using flow_body_square[OF assms(5,6,3)] flow_square[OF assms(1,2,3,4)] by simp

text \<open>
  An instance of C1: the second pass, and the call with two steps, on
  \<open>[[2, 1], [1, 3]]\<close> with \<open>dl = 1/10\<close>.
\<close>

theorem flow_forward_euler_witness:
  "(0::nat) < length [[[2, 1], [1, 3::real]]] \<and>
   is_square 2 ([[[2, 1], [1, 3]]] ! 0) \<and> (0::nat) < 2 \<and> (0::int) < 2 \<and>
   is_square 2 [[9 / 5, 9 / 10], [9 / 10, 16 / 5]] \<and>
   is_square 2 [[1, - (1 / 10)], [1 / 10, 1]] \<and>
   flow_body 2 (1 / 10)
     ([[9 / 5, 9 / 10], [9 / 10, 16 / 5]], Some 1, [[1, - (1 / 10)], [1 / 10, 1]]) =
     Inr ([[3933 / 2500, 1809 / 2500], [1809 / 2500, 8567 / 2500]], Some (9 / 10),
          [[4937 / 5000, - (113 / 500)], [113 / 500, 4937 / 5000]]) \<and>
   flow [[[2, 1], [1, 3]]] 0 (1 / 10) 2 =
     ([[[2, 1], [1, 3]], [[3933 / 2500, 1809 / 2500], [1809 / 2500, 8567 / 2500]]],
      Inr (1, 9 / 10, [[4937 / 5000, - (113 / 500)], [113 / 500, 4937 / 5000]]))"
proof -
  have 1: "(0::nat) < length [[[2, 1], [1, 3::real]]]" by simp
  have 2: "is_square 2 ([[[2, 1], [1, 3]]] ! 0)" by (simp add: exA_square)
  have 3: "(0::nat) < 2" by simp
  have 4: "(0::int) < 2" by simp
  have 5: "is_square 2 [[9 / 5, 9 / 10], [9 / 10, 16 / 5]]" by code_simp
  have 6: "is_square 2 [[1, - (1 / 10)], [1 / 10, 1]]" by code_simp
  have e: "euler_step 2 (1 / 10)
      ([[9 / 5, 9 / 10], [9 / 10, 16 / 5]], [[1, - (1 / 10)], [1 / 10, 1]]) =
     ([[3933 / 2500, 1809 / 2500], [1809 / 2500, 8567 / 2500]],
      [[4937 / 5000, - (113 / 500)], [113 / 500, 4937 / 5000]])"
    using exA_flowed_1 exA_flowed_2 flowed_Suc[of 2 "1 / 10" "Suc 0" "[[2, 1], [1, 3]]"]
    by (simp add: numeral_2_eq_2)
  have m: "off_diag_measure [[9 / 5, 9 / 10], [9 / 10, 16 / 5]] = 9 / 10" by code_simp
  have "flow_body 2 (1 / 10)
     ([[9 / 5, 9 / 10], [9 / 10, 16 / 5]], Some 1, [[1, - (1 / 10)], [1 / 10, 1]]) =
     Inr ([[3933 / 2500, 1809 / 2500], [1809 / 2500, 8567 / 2500]], Some (9 / 10),
          [[4937 / 5000, - (113 / 500)], [113 / 500, 4937 / 5000]])"
    and "flow [[[2, 1], [1, 3]]] 0 (1 / 10) 2 =
     ([[[2, 1], [1, 3]], [[3933 / 2500, 1809 / 2500], [1809 / 2500, 8567 / 2500]]],
      Inr (1, 9 / 10, [[4937 / 5000, - (113 / 500)], [113 / 500, 4937 / 5000]]))"
    using flow_forward_euler[OF 1 2 3 4 5 6, of "1 / 10" "Some 1"]
    by (simp_all add: e m exA_flowed_1 exA_flowed_2)
  with 1 2 3 4 5 6 show ?thesis by blast
qed

text \<open>
  C2: for a diagonal Hamiltonian the specification has \<open>flow\<close> return the input and
  the identity for any number of steps. For a non-empty diagonal array and
  \<open>steps > 0\<close> the code does so, with a zero generator at every pass
  (\<open>flow_diagonal_noop\<close>, \<open>flow_diagonal_each_step\<close>). With \<open>steps = 0\<close> it raises
  UnboundLocalError instead of returning, as it does for every input.
\<close>

theorem flow_diagonal_zero_steps_raises:
  "is_diagonal [[2, 0], [0, 3]] \<and>
   snd (flow [[[2, 0], [0, 3]]] 0 (1 / 1000) 0) = Inl UnboundLocalError"
proof -
  have "is_diagonal [[2, 0], [0, 3]]" by code_simp
  moreover have "snd (flow [[[2, 0], [0, 3]]] 0 (1 / 1000) 0) = Inl UnboundLocalError"
    by (simp add: flow_def Let_def)
  ultimately show ?thesis by blast
qed

text \<open>
  C3: the specification has \<open>flow\<close> with \<open>steps = 0\<close> return the Hamiltonian
  unchanged and the identity. The code raises UnboundLocalError there: \<open>Vmax\<close> is
  assigned in the loop body only, and the return statement reads it.
\<close>

theorem flow_zero_steps_raises:
  "snd (flow [[[2, 1], [1, 3]]] 0 (1 / 1000) 0) = Inl UnboundLocalError"
  by (simp add: flow_def Let_def)




text \<open>
  C5: symmetry is an invariant of the flow. For a symmetric argument, the array
  \<open>H2\<close> is symmetric and of the shape of the argument after every number \<open>k\<close> of
  passes, and what a call with \<open>steps > 0\<close> on a non-empty symmetric array returns is
  this array after \<open>steps\<close> passes.
\<close>

theorem flow_symmetric:
  assumes "a < length h" and "is_symmetric (h ! a)" and "h ! a \<noteq> []" and "0 < steps"
  shows "is_symmetric (H2_after h a dl k) \<and> shape (H2_after h a dl k) = shape (h ! a) \<and>
         flow h a dl steps =
           (h @ [H2_after h a dl (nat steps)],
            Inr (length h, off_diag_measure (H2_after h a dl (nat steps - 1)),
                 snd (flowed (nrows (h ! a)) dl (nat steps) (h ! a))))"
proof -
  have sq: "is_square (nrows (h ! a)) (h ! a)"
    by (rule is_symmetric_is_square[OF assms(2)])
  have n: "0 < nrows (h ! a)"
    using assms(3) by (simp add: nrows_def)
  show ?thesis
    using H2_after_symmetric[OF assms(1,2), of dl k] flow_returns[OF assms(1) sq n assms(4), of dl]
    by simp
qed

text \<open>
  An instance of C5: two steps on a symmetric \<open>3 \<times> 3\<close> Hamiltonian.
\<close>

theorem flow_symmetric_witness:
  "(0::nat) < length [[[1, 2, 0], [2, 0, 1], [0, 1, - 1::real]]] \<and>
   is_symmetric ([[[1, 2, 0], [2, 0, 1], [0, 1, - 1]]] ! 0) \<and>
   [[[1, 2, 0], [2, 0, 1], [0, 1, - 1::real]]] ! 0 \<noteq> [] \<and> (0::int) < 2 \<and>
   H2_after [[[1, 2, 0], [2, 0, 1], [0, 1, - 1]]] 0 (1 / 10) 2 =
     [[2097 / 625, 477 / 625, 729 / 2500],
      [477 / 625, - (1029 / 500), 2169 / 2500],
      [729 / 2500, 2169 / 2500, - (3243 / 2500)]] \<and>
   is_symmetric (H2_after [[[1, 2, 0], [2, 0, 1], [0, 1, - 1]]] 0 (1 / 10) 2) \<and>
   shape (H2_after [[[1, 2, 0], [2, 0, 1], [0, 1, - 1]]] 0 (1 / 10) 2) = (3, 3) \<and>
   fst (flow [[[1, 2, 0], [2, 0, 1], [0, 1, - 1]]] 0 (1 / 10) 2) =
     [[[1, 2, 0], [2, 0, 1], [0, 1, - 1]],
      [[2097 / 625, 477 / 625, 729 / 2500],
       [477 / 625, - (1029 / 500), 2169 / 2500],
       [729 / 2500, 2169 / 2500, - (3243 / 2500)]]]"
proof -
  let ?H = "[[1, 2, 0], [2, 0, 1], [0, 1, - 1::real]]"
  have 1: "(0::nat) < length [?H]" by simp
  have 2: "is_symmetric ([?H] ! 0)" by code_simp
  have 3: "[?H] ! 0 \<noteq> []" by simp
  have 4: "(0::int) < 2" by simp
  have e: "H2_after [?H] 0 (1 / 10) 2 =
     [[2097 / 625, 477 / 625, 729 / 2500],
      [477 / 625, - (1029 / 500), 2169 / 2500],
      [729 / 2500, 2169 / 2500, - (3243 / 2500)]]"
    by (simp add: H2_after_single[OF exC_square] exC_flowed_2)
  have s: "shape ([?H] ! 0) = (3, 3)" by code_simp
  from flow_symmetric[OF 1 2 3 4, of "1 / 10" 2]
  have "is_symmetric (H2_after [?H] 0 (1 / 10) 2)"
    and "shape (H2_after [?H] 0 (1 / 10) 2) = (3, 3)"
    and "fst (flow [?H] 0 (1 / 10) 2) = [?H, H2_after [?H] 0 (1 / 10) 2]"
    unfolding s by simp_all
  with 1 2 3 4 e show ?thesis by simp
qed

text \<open>
  C6: for a symmetric Hamiltonian, the generator computed at every pass, from the
  array \<open>H2\<close> as it is after \<open>k\<close> passes, has the shape of the Hamiltonian and is
  anti-symmetric under transposition. The pass computes it from the current \<open>H2\<close>
  alone, and the loop variables it hands to the next pass (\<open>H2\<close>, \<open>Vmax\<close>, \<open>U\<close>)
  do not hold it.
\<close>

theorem generator_antisymmetric_each_step:
  assumes "a < length h" and "is_symmetric (h ! a)" and "h ! a \<noteq> []"
  shows "shape (generator (H2_after h a dl k)) = shape (h ! a) \<and>
         is_antisymmetric (generator (H2_after h a dl k)) \<and>
         flow_body (nrows (h ! a)) dl (H2_after h a dl k, Vmax, U) =
           (let H2 = H2_after h a dl k; eta = generator H2
            in Inr (np_add H2 (np_scale dl (np_sub (matmul eta H2) (matmul H2 eta))),
                    Some (off_diag_measure H2),
                    matmul (np_add (np_identity (nrows (h ! a))) (np_scale dl eta)) U))"
proof -
  let ?n = "nrows (h ! a)"
  let ?H2 = "H2_after h a dl k"
  have sq: "is_square ?n (h ! a)"
    by (rule is_symmetric_is_square[OF assms(2)])
  have n: "0 < ?n"
    using assms(3) by (simp add: nrows_def)
  have H2: "?H2 = fst (flowed ?n dl k (h ! a))"
    by (rule H2_after_square[OF assms(1) sq n])
  have sq2: "is_square ?n ?H2"
    unfolding H2 using flowed_square[OF sq] by blast
  have sym2: "is_symmetric ?H2"
    using H2_after_symmetric[OF assms(1,2)] by blast
  have "is_square ?n (generator ?H2)"
    unfolding generator_square[OF sq2] by (rule is_square_mat)
  then have "shape (generator ?H2) = shape (h ! a)"
    by (simp add: shape_square[OF sq] shape_square[of ?n "generator ?H2"])
  moreover have "is_antisymmetric (generator ?H2)"
    by (rule generator_antisymmetric[OF sq2 sym2])
  ultimately show ?thesis
    by (simp add: flow_body_generator[OF sq2 n] Let_def)
qed

text \<open>
  An instance of C6: the generator of the second pass on the \<open>3 \<times> 3\<close> example.
\<close>

theorem generator_antisymmetric_each_step_witness:
  "(0::nat) < length [[[1, 2, 0], [2, 0, 1], [0, 1, - 1::real]]] \<and>
   is_symmetric ([[[1, 2, 0], [2, 0, 1], [0, 1, - 1]]] ! 0) \<and>
   [[[1, 2, 0], [2, 0, 1], [0, 1, - 1::real]]] ! 0 \<noteq> [] \<and>
   generator (H2_after [[[1, 2, 0], [2, 0, 1], [0, 1, - 1]]] 0 (1 / 10) 1) =
     [[0, 108 / 25, 0], [- (108 / 25), 0, 27 / 50], [0, - (27 / 50), 0]] \<and>
   shape (generator (H2_after [[[1, 2, 0], [2, 0, 1], [0, 1, - 1]]] 0 (1 / 10) 1)) = (3, 3) \<and>
   is_antisymmetric (generator (H2_after [[[1, 2, 0], [2, 0, 1], [0, 1, - 1]]] 0 (1 / 10) 1))"
proof -
  let ?H = "[[1, 2, 0], [2, 0, 1], [0, 1, - 1::real]]"
  have 1: "(0::nat) < length [?H]" by simp
  have 2: "is_symmetric ([?H] ! 0)" by code_simp
  have 3: "[?H] ! 0 \<noteq> []" by simp
  have s: "shape ([?H] ! 0) = (3, 3)" by code_simp
  have g: "generator [[9 / 5, 9 / 5, 0], [9 / 5, - (3 / 5), 9 / 10], [0, 9 / 10, - (6 / 5)]] =
      [[0, 108 / 25, 0], [- (108 / 25), 0, 27 / 50], [0, - (27 / 50), 0]]"
    by code_simp
  have e: "generator (H2_after [?H] 0 (1 / 10) 1) =
      [[0, 108 / 25, 0], [- (108 / 25), 0, 27 / 50], [0, - (27 / 50), 0]]"
    by (simp add: H2_after_single[OF exC_square] exC_flowed_1 g)
  from generator_antisymmetric_each_step[OF 1 2 3, of "1 / 10" 1]
  have "shape (generator (H2_after [?H] 0 (1 / 10) 1)) = (3, 3)"
    and "is_antisymmetric (generator (H2_after [?H] 0 (1 / 10) 1))"
    unfolding s by blast+
  with 1 2 3 e show ?thesis by blast
qed

text \<open>
  C7: \<open>flow\<close> does not change the array its caller passes. It works on a deep copy:
  every array of the caller's store, the argument at address \<open>a\<close> among them, is the
  same after the call, whatever \<open>dl\<close> and \<open>steps\<close> are and whether the call returns
  or raises, and the array it returns is a new one, at another address than the
  argument.
\<close>

theorem flow_argument_unchanged:
  assumes "a < length h"
  shows "fst (flow h a dl steps) ! a = h ! a \<and>
         take (length h) (fst (flow h a dl steps)) = h \<and>
         (flow h a dl steps = (h', Inr (a2, Vmax, U)) \<longrightarrow> a2 = length h \<and> a2 \<noteq> a)"
proof -
  have t: "take (length h) (fst (flow h a dl steps)) = h"
    unfolding flow_heap by (simp add: flow_loop_frame)
  have "fst (flow h a dl steps) ! a = take (length h) (fst (flow h a dl steps)) ! a"
    using assms by simp
  with t have "fst (flow h a dl steps) ! a = h ! a"
    by simp
  moreover have "a2 = length h \<and> a2 \<noteq> a" if "flow h a dl steps = (h', Inr (a2, Vmax, U))"
    using flow_returned[OF that] assms by simp
  ultimately show ?thesis
    using t by blast
qed

text \<open>
  An instance of C7: after two steps the argument at address 0 is as it was, and the
  flowed copy is the new array at address 1.
\<close>

theorem flow_argument_unchanged_witness:
  "(0::nat) < length [[[2, 1], [1, 3 :: real]]] \<and>
   flow [[[2, 1], [1, 3]]] 0 (1 / 10) 2 =
     ([[[2, 1], [1, 3]], [[3933 / 2500, 1809 / 2500], [1809 / 2500, 8567 / 2500]]],
      Inr (1, 9 / 10, [[4937 / 5000, - (113 / 500)], [113 / 500, 4937 / 5000]])) \<and>
   fst (flow [[[2, 1], [1, 3]]] 0 (1 / 10) 2) ! 0 = [[2, 1], [1, 3]] \<and>
   take (length [[[2, 1], [1, 3 :: real]]]) (fst (flow [[[2, 1], [1, 3]]] 0 (1 / 10) 2)) =
     [[[2, 1], [1, 3]]] \<and>
   (1::nat) = length [[[2, 1], [1, 3 :: real]]] \<and> (1::nat) \<noteq> 0"
proof -
  let ?h = "[[[2, 1], [1, 3 :: real]]]"
  let ?h' = "[[[2, 1], [1, 3]], [[3933 / 2500, 1809 / 2500], [1809 / 2500, 8567 / 2500 :: real]]]"
  let ?U = "[[4937 / 5000, - (113 / 500)], [113 / 500, 4937 / 5000 :: real]]"
  have a: "(0::nat) < length ?h" by simp
  have m: "off_diag_measure [[9 / 5, 9 / 10], [9 / 10, 16 / 5]] = 9 / 10" by code_simp
  have e: "flow ?h 0 (1 / 10) 2 = (?h', Inr (1, 9 / 10, ?U))"
    by (simp add: flow_single[OF exA_square] exA_flowed_1 exA_flowed_2 m)
  from flow_argument_unchanged[OF a, where dl = "1 / 10" and steps = 2 and h' = ?h'
      and ?a2.0 = 1 and Vmax = "9 / 10" and U = ?U]
  have "fst (flow ?h 0 (1 / 10) 2) ! 0 = ?h ! 0"
    and "take (length ?h) (fst (flow ?h 0 (1 / 10) 2)) = ?h"
    and "(1::nat) = length ?h \<and> (1::nat) \<noteq> 0"
    using e by blast+
  with a e show ?thesis by simp
qed

text \<open>
  C9: the trace is conserved, in exact arithmetic. For every array, the trace of
  \<open>H2\<close> after every number \<open>k\<close> of passes is the trace of the argument; whenever a
  call returns, the trace of the returned array is the trace of the argument; and a
  call with \<open>steps > 0\<close> on a non-empty square array does return, the array after
  \<open>steps\<close> passes.
\<close>

theorem flow_trace_conserved:
  assumes "a < length h" and "is_ndarray (h ! a)"
  shows "trace (H2_after h a dl k) = trace (h ! a) \<and>
         (flow h a dl steps = (h', Inr (a2, Vmax, U)) \<longrightarrow> trace (h' ! a2) = trace (h ! a)) \<and>
         (0 < steps \<and> is_square (nrows (h ! a)) (h ! a) \<and> h ! a \<noteq> [] \<longrightarrow>
            fst (flow h a dl steps) = h @ [H2_after h a dl (nat steps)] \<and>
            snd (flow h a dl steps) =
              Inr (length h, off_diag_measure (H2_after h a dl (nat steps - 1)),
                   snd (flowed (nrows (h ! a)) dl (nat steps) (h ! a))))"
proof (intro conjI impI)
  show "trace (H2_after h a dl k) = trace (h ! a)"
    by (rule H2_after_trace[OF assms])
next
  assume "flow h a dl steps = (h', Inr (a2, Vmax, U))"
  from flow_returned[OF this] have "h' ! a2 = H2_after h a dl (nat steps)"
    by blast
  then show "trace (h' ! a2) = trace (h ! a)"
    by (simp only: H2_after_trace[OF assms])
next
  assume *: "0 < steps \<and> is_square (nrows (h ! a)) (h ! a) \<and> h ! a \<noteq> []"
  then have n: "0 < nrows (h ! a)"
    by (simp add: nrows_def)
  from * flow_returns[OF assms(1) _ n, of steps dl]
  show "fst (flow h a dl steps) = h @ [H2_after h a dl (nat steps)]"
    and "snd (flow h a dl steps) =
              Inr (length h, off_diag_measure (H2_after h a dl (nat steps - 1)),
                   snd (flowed (nrows (h ! a)) dl (nat steps) (h ! a)))"
    by simp_all
qed

text \<open>
  An instance of C9: the \<open>3 \<times> 3\<close> example, of trace 0, after one pass and as
  returned by the call with two steps.
\<close>

theorem flow_trace_conserved_witness:
  "(0::nat) < length [[[1, 2, 0], [2, 0, 1], [0, 1, - 1::real]]] \<and>
   is_ndarray ([[[1, 2, 0], [2, 0, 1], [0, 1, - 1]]] ! 0) \<and>
   (0::int) < 2 \<and>
   is_square (nrows ([[[1, 2, 0], [2, 0, 1], [0, 1, - 1]]] ! 0))
     ([[[1, 2, 0], [2, 0, 1], [0, 1, - 1]]] ! 0) \<and>
   [[[1, 2, 0], [2, 0, 1], [0, 1, - 1::real]]] ! 0 \<noteq> [] \<and>
   flow [[[1, 2, 0], [2, 0, 1], [0, 1, - 1]]] 0 (1 / 10) 2 =
     ([[[1, 2, 0], [2, 0, 1], [0, 1, - 1]],
       [[2097 / 625, 477 / 625, 729 / 2500],
        [477 / 625, - (1029 / 500), 2169 / 2500],
        [729 / 2500, 2169 / 2500, - (3243 / 2500)]]],
      Inr (1, 9 / 5,
           [[571 / 625, 79 / 125, 27 / 625],
            [- (79 / 125), 4541 / 5000, 77 / 500],
            [27 / 2500, - (77 / 500), 4973 / 5000]])) \<and>
   trace [[1, 2, 0], [2, 0, 1], [0, 1, - 1]] = 0 \<and>
   trace [[2097 / 625, 477 / 625, 729 / 2500],
          [477 / 625, - (1029 / 500), 2169 / 2500],
          [729 / 2500, 2169 / 2500, - (3243 / 2500)]] = 0 \<and>
   trace (H2_after [[[1, 2, 0], [2, 0, 1], [0, 1, - 1]]] 0 (1 / 10) 1) = 0"
proof -
  let ?H = "[[1, 2, 0], [2, 0, 1], [0, 1, - 1::real]]"
  let ?H' = "[[2097 / 625, 477 / 625, 729 / 2500],
       [477 / 625, - (1029 / 500), 2169 / 2500],
       [729 / 2500, 2169 / 2500, - (3243 / 2500::real)]]"
  let ?U = "[[571 / 625, 79 / 125, 27 / 625],
            [- (79 / 125), 4541 / 5000, 77 / 500],
            [27 / 2500, - (77 / 500), 4973 / 5000 :: real]]"
  have 1: "(0::nat) < length [?H]" by simp
  have 2: "is_ndarray ([?H] ! 0)" by code_simp
  have 3: "(0::int) < 2" by simp
  have 4: "is_square (nrows ([?H] ! 0)) ([?H] ! 0)" by code_simp
  have 5: "[?H] ! 0 \<noteq> []" by simp
  have t: "trace ?H = 0" by code_simp
  have m: "off_diag_measure [[9 / 5, 9 / 5, 0], [9 / 5, - (3 / 5), 9 / 10], [0, 9 / 10, - (6 / 5)]]
      = 9 / 5"
    by code_simp
  have e: "flow [?H] 0 (1 / 10) 2 = ([?H, ?H'], Inr (1, 9 / 5, ?U))"
    by (simp add: flow_single[OF exC_square] exC_flowed_1 exC_flowed_2 m)
  from flow_trace_conserved[OF 1 2, where dl = "1 / 10" and k = 1 and steps = 2
      and h' = "[?H, ?H']" and ?a2.0 = 1 and Vmax = "9 / 5" and U = ?U]
  have "trace ([?H, ?H'] ! 1) = trace ([?H] ! 0)"
    and "trace (H2_after [?H] 0 (1 / 10) 1) = trace ([?H] ! 0)"
    using e by blast+
  then have "trace ?H' = 0" and "trace (H2_after [?H] 0 (1 / 10) 1) = 0"
    by (simp_all add: t)
  with 1 2 3 4 5 e t show ?thesis by blast
qed

text \<open>
  C10: for \<open>steps \<ge> 1\<close>, on a square array with at least two rows, the returned
  \<open>Vmax\<close> is the largest absolute value of an off-diagonal entry of \<open>H2\<close> as it is
  after \<open>steps - 1\<close> passes, at the start of the last pass, while the returned array is
  \<open>H2\<close> after \<open>steps\<close> passes.
\<close>

theorem flow_Vmax_lags:
  assumes "a < length h" and "is_square n (h ! a)" and "2 \<le> n" and "1 \<le> steps"
  shows "flow h a dl steps =
           (h @ [H2_after h a dl (nat steps)],
            Inr (length h, max_abs_off_diagonal n (H2_after h a dl (nat steps - 1)),
                 snd (flowed n dl (nat steps) (h ! a))))"
proof -
  have n: "0 < n" and steps: "0 < steps"
    using assms(3,4) by simp_all
  have "is_square n (H2_after h a dl (nat steps - 1))"
    unfolding H2_after_square[OF assms(1,2) n] using flowed_square[OF assms(2)] by blast
  from off_diag_measure_max_abs[OF this assms(3)] show ?thesis
    by (simp add: flow_returns[OF assms(1,2) n steps])
qed

text \<open>
  An instance of C10: after two steps \<open>Vmax\<close> is \<open>9/10\<close>, the measure of the array
  after one pass; the measure of the returned array is \<open>1809/2500\<close>.
\<close>

theorem flow_Vmax_lags_witness:
  "(0::nat) < length [[[2, 1], [1, 3::real]]] \<and>
   is_square 2 ([[[2, 1], [1, 3]]] ! 0) \<and> (2::nat) \<le> 2 \<and> (1::int) \<le> 2 \<and>
   flow [[[2, 1], [1, 3]]] 0 (1 / 10) 2 =
     ([[[2, 1], [1, 3]], [[3933 / 2500, 1809 / 2500], [1809 / 2500, 8567 / 2500]]],
      Inr (1, 9 / 10, [[4937 / 5000, - (113 / 500)], [113 / 500, 4937 / 5000]])) \<and>
   H2_after [[[2, 1], [1, 3]]] 0 (1 / 10) 1 = [[9 / 5, 9 / 10], [9 / 10, 16 / 5]] \<and>
   max_abs_off_diagonal 2 [[9 / 5, 9 / 10], [9 / 10, 16 / 5]] = 9 / 10 \<and>
   max_abs_off_diagonal 2 [[3933 / 2500, 1809 / 2500], [1809 / 2500, 8567 / 2500]] = 1809 / 2500"
proof -
  let ?H = "[[2, 1], [1, 3::real]]"
  have 1: "(0::nat) < length [?H]" by simp
  have 2: "is_square 2 ([?H] ! 0)" by (simp add: exA_square)
  have 3: "(2::nat) \<le> 2" by simp
  have 4: "(1::int) \<le> 2" by simp
  have e1: "H2_after [?H] 0 (1 / 10) (Suc 0) = [[9 / 5, 9 / 10], [9 / 10, 16 / 5]]"
    by (simp add: H2_after_single[OF exA_square] exA_flowed_1)
  have e2: "H2_after [?H] 0 (1 / 10) 2 =
      [[3933 / 2500, 1809 / 2500], [1809 / 2500, 8567 / 2500]]"
    by (simp add: H2_after_single[OF exA_square] exA_flowed_2)
  have m1: "max_abs_off_diagonal 2 [[9 / 5, 9 / 10], [9 / 10, 16 / 5]] = 9 / 10"
    by code_simp
  have m2: "max_abs_off_diagonal 2
      [[3933 / 2500, 1809 / 2500], [1809 / 2500, 8567 / 2500]] = 1809 / 2500"
    by code_simp
  have "flow [?H] 0 (1 / 10) 2 =
     ([?H, [[3933 / 2500, 1809 / 2500], [1809 / 2500, 8567 / 2500]]],
      Inr (1, 9 / 10, [[4937 / 5000, - (113 / 500)], [113 / 500, 4937 / 5000]]))"
    using flow_Vmax_lags[OF 1 2 3 4, of "1 / 10"]
    by (simp add: e1 e2 m1 exA_flowed_2)
  with 1 2 3 4 e1 m1 m2 show ?thesis by simp
qed

end
